theory Spec2Isabelle
  imports Main "HOL-Library.Word" "HOL-Library.Sublist"
begin

section \<open>Strings of UTF-16 code units\<close>

text \<open>
  A JavaScript string is a sequence of 16-bit code units; \<open>length\<close>, \<open>slice\<close>,
  \<open>split\<close>, \<open>includes\<close> and \<open>trim\<close> all work on code units. The ASCII literals of the
  source are written \<open>str ''...''\<close>.
\<close>

type_synonym code_unit = "16 word"
type_synonym jsstring = "code_unit list"

definition str :: "string \<Rightarrow> jsstring" where
  "str s = map of_char s"

text \<open>The two delimiters of the program: \<open>.\<close> in paths and \<open>:\<close> in tag names.\<close>

definition dot :: code_unit where
  "dot = 0x2E"

definition colon :: code_unit where
  "colon = 0x3A"

text \<open>
  \<open>String.prototype.trim\<close> removes, at both ends, the code units that ECMAScript calls
  WhiteSpace (TAB, VT, FF, SP, NBSP, ZWNBSP and the Unicode category Zs) or
  LineTerminator (LF, CR, LS, PS).
\<close>

definition white_space :: "code_unit list" where
  "white_space =
     [0x0009, 0x000A, 0x000B, 0x000C, 0x000D, 0x0020, 0x00A0, 0x1680,
      0x2000, 0x2001, 0x2002, 0x2003, 0x2004, 0x2005, 0x2006, 0x2007,
      0x2008, 0x2009, 0x200A, 0x2028, 0x2029, 0x202F, 0x205F, 0x3000, 0xFEFF]"

definition isWhiteSpace :: "code_unit \<Rightarrow> bool" where
  "isWhiteSpace c = (c \<in> set white_space)"

definition trim :: "jsstring \<Rightarrow> jsstring" where
  "trim s = rev (dropWhile isWhiteSpace (rev (dropWhile isWhiteSpace s)))"

text \<open>
  \<open>s.split(sep)\<close> for a separator of one code unit: the segments between the
  occurrences of \<open>sep\<close>, in order; there is always at least one segment, so the
  empty case of the inner \<open>case\<close> is never taken.
\<close>

fun js_split :: "code_unit \<Rightarrow> jsstring \<Rightarrow> jsstring list" where
  "js_split sep [] = [[]]"
| "js_split sep (c # cs) =
     (if c = sep then [] # js_split sep cs
      else (case js_split sep cs of
              [] \<Rightarrow> [[c]]
            | w # ws \<Rightarrow> (c # w) # ws))"

text \<open>Reading an array at an index: \<open>None\<close> is JavaScript's \<open>undefined\<close>.\<close>

definition js_index :: "'a list \<Rightarrow> nat \<Rightarrow> 'a option" where
  "js_index xs i = (if i < length xs then Some (xs ! i) else None)"

text \<open>
  The decimal rendering of a non-negative array index, as a template literal
  \<open>${i}\<close> produces it: no sign, no leading zero.
\<close>

definition digit :: "nat \<Rightarrow> code_unit" where
  "digit d = of_nat (48 + d)"

fun decimal :: "nat \<Rightarrow> jsstring" where
  "decimal n = (if n < 10 then [digit n] else decimal (n div 10) @ [digit (n mod 10)])"

declare decimal.simps [simp del]

section \<open>The document tree\<close>

text \<open>
  What the viewer reads of a DOM \<open>Element\<close>: its \<open>nodeName\<close>, its \<open>textContent\<close>
  (typed \<open>string | null\<close>) and its element children in document order.
\<close>

datatype Element =
  Element (nodeName: jsstring) (textContent: "jsstring option") (children: "Element list")

type_synonym cmap = "jsstring \<rightharpoonup> bool"

text \<open>The template literal \<open>`${path}.${i}`\<close> of the three traversals and of \<open>XmlTree\<close>.\<close>

definition childPath :: "jsstring \<Rightarrow> nat \<Rightarrow> jsstring" where
  "childPath path i = path @ str ''.'' @ decimal i"

section \<open>Building collapse maps\<close>

text \<open>
  \<open>generateDefaultCollapsedMap\<close>: the inner \<open>traverse\<close> writes \<open>map[path] = depth > 0\<close>
  and then visits the children with \<open>forEach\<close>, passing the index. The mutated local
  object \<open>map\<close> is threaded through as the last argument.
\<close>

fun traverse_default :: "Element \<Rightarrow> jsstring \<Rightarrow> int \<Rightarrow> cmap \<Rightarrow> cmap"
  and forEach_default :: "Element list \<Rightarrow> nat \<Rightarrow> jsstring \<Rightarrow> int \<Rightarrow> cmap \<Rightarrow> cmap" where
  "traverse_default (Element n t cs) path depth m =
     forEach_default cs 0 path depth (m(path \<mapsto> depth > 0))"
| "forEach_default [] i path depth m = m"
| "forEach_default (child # rest) i path depth m =
     forEach_default rest (Suc i) path depth
       (traverse_default child (childPath path i) (depth + 1) m)"

definition generateDefaultCollapsedMap :: "Element \<Rightarrow> cmap" where
  "generateDefaultCollapsedMap root = traverse_default root (str ''0'') 0 Map.empty"

text \<open>\<open>expandAll\<close>: the same walk, writing \<open>map[path] = false\<close>.\<close>

fun traverse_expand :: "Element \<Rightarrow> jsstring \<Rightarrow> cmap \<Rightarrow> cmap"
  and forEach_expand :: "Element list \<Rightarrow> nat \<Rightarrow> jsstring \<Rightarrow> cmap \<Rightarrow> cmap" where
  "traverse_expand (Element n t cs) path m = forEach_expand cs 0 path (m(path \<mapsto> False))"
| "forEach_expand [] i path m = m"
| "forEach_expand (child # rest) i path m =
     forEach_expand rest (Suc i) path (traverse_expand child (childPath path i) m)"

definition expandAll :: "Element \<Rightarrow> cmap" where
  "expandAll xmlElement = traverse_expand xmlElement (str ''0'') Map.empty"

text \<open>\<open>collapseAll\<close>: the same walk, writing \<open>map[path] = true\<close>.\<close>

fun traverse_collapse :: "Element \<Rightarrow> jsstring \<Rightarrow> cmap \<Rightarrow> cmap"
  and forEach_collapse :: "Element list \<Rightarrow> nat \<Rightarrow> jsstring \<Rightarrow> cmap \<Rightarrow> cmap" where
  "traverse_collapse (Element n t cs) path m = forEach_collapse cs 0 path (m(path \<mapsto> True))"
| "forEach_collapse [] i path m = m"
| "forEach_collapse (child # rest) i path m =
     forEach_collapse rest (Suc i) path (traverse_collapse child (childPath path i) m)"

definition collapseAll :: "Element \<Rightarrow> cmap" where
  "collapseAll xmlElement = traverse_collapse xmlElement (str ''0'') Map.empty"

text \<open>
  The calls of \<open>traverse\<close> in the order they happen (depth first, children in document
  order): the path, the depth and the element of each call.
\<close>

fun visits :: "Element \<Rightarrow> jsstring \<Rightarrow> int \<Rightarrow> (jsstring \<times> int \<times> Element) list"
  and visits_children :: "Element list \<Rightarrow> nat \<Rightarrow> jsstring \<Rightarrow> int \<Rightarrow> (jsstring \<times> int \<times> Element) list" where
  "visits (Element n t cs) path depth =
     (path, depth, Element n t cs) # visits_children cs 0 path depth"
| "visits_children [] i path depth = []"
| "visits_children (child # rest) i path depth =
     visits child (childPath path i) (depth + 1) @ visits_children rest (Suc i) path depth"

definition nodes :: "Element \<Rightarrow> (jsstring \<times> int \<times> Element) list" where
  "nodes root = visits root (str ''0'') 0"

text \<open>
  Replaying a list of calls on a map: each call writes the value \<open>f depth\<close> under its
  path, later calls over earlier ones.
\<close>

definition writes :: "(int \<Rightarrow> bool) \<Rightarrow> (jsstring \<times> int \<times> Element) list \<Rightarrow> cmap \<Rightarrow> cmap" where
  "writes f vs m = fold (\<lambda>(q, d, e) m'. m'(q \<mapsto> f d)) vs m"

section \<open>Collapse state of one node\<close>

text \<open>
  \<open>XmlTree\<close>: \<open>const collapsed = collapsedMap[path] ?? (depth > 0)\<close>. The map is a
  \<open>Record<string, boolean>\<close>; its keys are paths, which begin with \<open>0\<close>, so a lookup
  never reaches a property inherited from the object prototype.
\<close>

definition XmlTree_collapsed :: "cmap \<Rightarrow> jsstring \<Rightarrow> int \<Rightarrow> bool" where
  "XmlTree_collapsed collapsedMap path depth =
     (case collapsedMap path of Some b \<Rightarrow> b | None \<Rightarrow> depth > 0)"

text \<open>
  \<open>toggle\<close> in \<open>XmlTree\<close>: the object \<open>{...collapsedMap, [path]: !collapsed}\<close> handed to
  \<open>setCollapsedMap\<close>.
\<close>

definition toggle :: "cmap \<Rightarrow> jsstring \<Rightarrow> bool \<Rightarrow> cmap" where
  "toggle collapsedMap path c = collapsedMap(path \<mapsto> \<not> c)"

text \<open>
  The same with the objects in a store: a reference is the position of an object in the
  store, an object literal allocates a new object at the end, and the spread copies the
  entries of the object behind \<open>r\<close> into it. A reference outside the store does not exist
  in the program; the model answers \<open>None\<close> there.
\<close>

type_synonym store = "cmap list"

definition toggle_store :: "store \<Rightarrow> nat \<Rightarrow> jsstring \<Rightarrow> bool \<Rightarrow> (store \<times> nat) option" where
  "toggle_store h r path c =
     (if r < length h then Some (h @ [toggle (h ! r) path c], length h) else None)"

section \<open>Rendering\<close>

text \<open>
  \<open>stripNamespace\<close>: \<open>tagName.includes(":") ? tagName.split(":")[1] : tagName\<close>.
\<close>

definition stripNamespace :: "jsstring \<Rightarrow> jsstring option" where
  "stripNamespace tagName =
     (if colon \<in> set tagName then js_index (js_split colon tagName) 1 else Some tagName)"

text \<open>\<open>limitContent\<close>: \<open>!content\<close> holds for \<open>null\<close> and for the empty string.\<close>

definition limitContent :: "jsstring option \<Rightarrow> jsstring" where
  "limitContent content =
     (case content of
        None \<Rightarrow> []
      | Some c \<Rightarrow>
          if c = [] then []
          else (let t = trim c in
                if length t > 80 then take 80 t @ str ''...'' else t))"

text \<open>
  What is put on the screen: a leaf line with the tag and the limited text, or a header
  with the tag, the arrow state, the path its click handler closes over, and the rendered
  children (none while collapsed).
\<close>

datatype view =
  LeafView "jsstring option" jsstring
| TreeView "jsstring option" bool jsstring "view list"

fun XmlViewer :: "Element \<Rightarrow> int \<Rightarrow> jsstring \<Rightarrow> cmap \<Rightarrow> view"
  and XmlTree_children :: "Element list \<Rightarrow> nat \<Rightarrow> int \<Rightarrow> jsstring \<Rightarrow> cmap \<Rightarrow> view list" where
  "XmlViewer (Element n t cs) depth path m =
     (if \<not> length cs > 0 then LeafView (stripNamespace n) (limitContent t)
      else TreeView (stripNamespace n) (XmlTree_collapsed m path depth) path
             (if \<not> XmlTree_collapsed m path depth then XmlTree_children cs 0 depth path m
              else []))"
| "XmlTree_children [] index depth path m = []"
| "XmlTree_children (child # rest) index depth path m =
     XmlViewer child (depth + 1) (childPath path index) m
       # XmlTree_children rest (Suc index) depth path m"

text \<open>The paths of the headers on the screen, each with the arrow state shown.\<close>

fun headers :: "view \<Rightarrow> (jsstring \<times> bool) list"
  and headers_list :: "view list \<Rightarrow> (jsstring \<times> bool) list" where
  "headers (LeafView tag txt) = []"
| "headers (TreeView tag c path kids) = (path, c) # headers_list kids"
| "headers_list [] = []"
| "headers_list (v # vs) = headers v @ headers_list vs"

definition XmlView :: "Element \<Rightarrow> cmap \<Rightarrow> view" where
  "XmlView xmlElement collapsedMap = XmlViewer xmlElement 0 (str ''0'') collapsedMap"

section \<open>The application state\<close>

record app_state =
  xmlElement :: "Element option"
  isDragging :: bool
  error :: "jsstring option"
  collapsedMap :: cmap

text \<open>
  \<open>getElementsByTagName\<close> on a document, given by its document element: the elements
  with that name, in document order.
\<close>

fun getElementsByTagName :: "Element \<Rightarrow> jsstring \<Rightarrow> Element list"
  and getElementsByTagName_list :: "Element list \<Rightarrow> jsstring \<Rightarrow> Element list" where
  "getElementsByTagName (Element n t cs) name =
     (if n = name then [Element n t cs] else []) @ getElementsByTagName_list cs name"
| "getElementsByTagName_list [] name = []"
| "getElementsByTagName_list (c # cs) name =
     getElementsByTagName c name @ getElementsByTagName_list cs name"

text \<open>
  \<open>reader.onload\<close> in \<open>handleFile\<close>. The parser is the browser's: its result \<open>xmlDoc\<close>
  (the document element of what \<open>parseFromString\<close> returned) is an argument.
\<close>

definition onload :: "Element \<Rightarrow> app_state \<Rightarrow> app_state" where
  "onload xmlDoc st =
     (let parserError = getElementsByTagName xmlDoc (str ''parsererror'');
          st1 = st\<lparr>error := None\<rparr>
      in if length parserError > 0
         then st1\<lparr>xmlElement := None, error := Some (str ''Not a valid XML'')\<rparr>
         else st1\<lparr>xmlElement := Some xmlDoc,
                  collapsedMap := generateDefaultCollapsedMap xmlDoc\<rparr>)"

text \<open>
  \<open>handleFile\<close>: a missing file or one whose type is not \<open>text/xml\<close> changes nothing;
  otherwise the file is read and \<open>onload\<close> runs on the parsed text.
\<close>

definition handleFile :: "jsstring option \<Rightarrow> Element \<Rightarrow> app_state \<Rightarrow> app_state" where
  "handleFile file_type xmlDoc st =
     (case file_type of
        None \<Rightarrow> st
      | Some ty \<Rightarrow> if ty \<noteq> str ''text/xml'' then st else onload xmlDoc st)"

text \<open>The click handlers of \<open>XmlView\<close> and \<open>XmlTree\<close>, as state updates.\<close>

definition click_expandAll :: "app_state \<Rightarrow> app_state" where
  "click_expandAll st =
     (case xmlElement st of
        None \<Rightarrow> st
      | Some el \<Rightarrow> st\<lparr>collapsedMap := expandAll el\<rparr>)"

definition click_collapseAll :: "app_state \<Rightarrow> app_state" where
  "click_collapseAll st =
     (case xmlElement st of
        None \<Rightarrow> st
      | Some el \<Rightarrow> st\<lparr>collapsedMap := collapseAll el\<rparr>)"

definition click_toggle :: "jsstring \<Rightarrow> int \<Rightarrow> app_state \<Rightarrow> app_state" where
  "click_toggle path depth st =
     st\<lparr>collapsedMap :=
          toggle (collapsedMap st) path (XmlTree_collapsed (collapsedMap st) path depth)\<rparr>"

text \<open>
  \<open>App\<close>: the error line is shown when \<open>error\<close> is truthy, the tree when \<open>xmlElement\<close>
  is not \<open>null\<close>.
\<close>

definition App :: "app_state \<Rightarrow> jsstring option \<times> view option" where
  "App st =
     ((case error st of None \<Rightarrow> None | Some e \<Rightarrow> if e = [] then None else Some e),
      (case xmlElement st of None \<Rightarrow> None | Some el \<Rightarrow> Some (XmlView el (collapsedMap st))))"

section \<open>A sample document\<close>

text \<open>\<open><root><a>1</a><b><c>2</c></b></root>\<close>\<close>

definition elem_a :: Element where
  "elem_a = Element (str ''a'') (Some (str ''1'')) []"

definition elem_c :: Element where
  "elem_c = Element (str ''c'') (Some (str ''2'')) []"

definition elem_b :: Element where
  "elem_b = Element (str ''b'') (Some (str ''2'')) [elem_c]"

definition sample :: Element where
  "sample = Element (str ''root'') (Some (str ''12'')) [elem_a, elem_b]"

text \<open>
  The state the application starts in, and a document as the parser returns it for
  malformed input: it contains a \<open>parsererror\<close> element.
\<close>

definition initial :: app_state where
  "initial = \<lparr>xmlElement = None, isDragging = False, error = None, collapsedMap = Map.empty\<rparr>"

definition malformed :: Element where
  "malformed = Element (str ''parsererror'') (Some (str ''error on line 1'')) []"

section \<open>Paths\<close>

lemma str_dot: "str ''.'' = [dot]"
  by (simp add: str_def dot_def)

lemma digit_not_dot:
  assumes "d < 10"
  shows "digit d \<noteq> dot"
proof -
  have "dot = (of_nat 46 :: code_unit)" by (simp add: dot_def)
  moreover have "(of_nat (48 + d) :: code_unit) \<noteq> of_nat 46"
    using assms by (simp only: word_of_nat_eq_iff take_bit_eq_mod) simp
  ultimately show ?thesis unfolding digit_def by metis
qed

lemma digit_inj: "d < 10 \<Longrightarrow> e < 10 \<Longrightarrow> digit d = digit e \<Longrightarrow> d = e"
  unfolding digit_def
  by (simp add: word_of_nat_eq_iff take_bit_eq_mod)

lemma decimal_no_dot: "dot \<notin> set (decimal n)"
proof (induction n rule: decimal.induct)
  case (1 n)
  show ?case
  proof (cases "n < 10")
    case True
    then show ?thesis using digit_not_dot [of n] by (subst decimal.simps) auto
  next
    case False
    have "n mod 10 < 10" by simp
    then have "digit (n mod 10) \<noteq> dot" by (rule digit_not_dot)
    with False 1 show ?thesis by (subst decimal.simps) auto
  qed
qed

lemma decimal_not_Nil: "decimal n \<noteq> []"
  by (subst decimal.simps) simp

lemma decimal_inj: "decimal i = decimal j \<Longrightarrow> i = j"
proof (induction i arbitrary: j rule: decimal.induct)
  case (1 n)
  show ?case
  proof (cases "n < 10")
    case True
    then have n: "decimal n = [digit n]" by (subst decimal.simps) simp
    show ?thesis
    proof (cases "j < 10")
      case j: True
      then have "decimal j = [digit j]" by (subst decimal.simps) simp
      with n "1.prems" have "digit n = digit j" by simp
      then show ?thesis using True j by (rule digit_inj [rotated 2])
    next
      case False
      then have "decimal j = decimal (j div 10) @ [digit (j mod 10)]" by (subst decimal.simps) simp
      with n "1.prems" have "decimal (j div 10) = []" by simp
      then show ?thesis using decimal_not_Nil by blast
    qed
  next
    case False
    then have n: "decimal n = decimal (n div 10) @ [digit (n mod 10)]" by (subst decimal.simps) simp
    show ?thesis
    proof (cases "j < 10")
      case True
      then have "decimal j = [digit j]" by (subst decimal.simps) simp
      with n "1.prems" have "decimal (n div 10) = []" by simp
      then show ?thesis using decimal_not_Nil by blast
    next
      case j: False
      then have "decimal j = decimal (j div 10) @ [digit (j mod 10)]" by (subst decimal.simps) simp
      with n "1.prems" have a: "decimal (n div 10) = decimal (j div 10)"
        and b: "digit (n mod 10) = digit (j mod 10)" by simp_all
      from "1.IH" [OF False a] have "n div 10 = j div 10" .
      moreover from b have "n mod 10 = j mod 10" by (intro digit_inj) simp_all
      ultimately show ?thesis by (metis div_mult_mod_eq)
    qed
  qed
qed

lemma takeWhile_before_dot:
  assumes "dot \<notin> set a" and "s = [] \<or> hd s = dot"
  shows "takeWhile (\<lambda>c. c \<noteq> dot) (a @ s) = a"
proof -
  have "takeWhile (\<lambda>c. c \<noteq> dot) s = []"
    using assms(2) by (cases s) auto
  moreover have "\<forall>c \<in> set a. c \<noteq> dot" using assms(1) by auto
  ultimately show ?thesis by (simp add: takeWhile_append2)
qed

lemma segment_unique:
  assumes "dot \<notin> set a" and "dot \<notin> set b"
    and "s = [] \<or> hd s = dot" and "s' = [] \<or> hd s' = dot"
    and "a @ s = b @ s'"
  shows "a = b"
proof -
  have "a = takeWhile (\<lambda>c. c \<noteq> dot) (a @ s)"
    using takeWhile_before_dot [OF assms(1,3)] by simp
  also have "\<dots> = takeWhile (\<lambda>c. c \<noteq> dot) (b @ s')" by (simp only: assms(5))
  also have "\<dots> = b" using assms(2,4) by (rule takeWhile_before_dot)
  finally show ?thesis .
qed

lemma childPath_eq: "childPath p i = p @ dot # decimal i"
  by (simp add: childPath_def str_dot)

lemma visits_form:
  "(q, d', e) \<in> set (visits el p d) \<Longrightarrow> \<exists>s. q = p @ s \<and> (s = [] \<or> hd s = dot)"
  "(q, d', e) \<in> set (visits_children cs i p d) \<Longrightarrow>
     \<exists>j s. i \<le> j \<and> j < i + length cs \<and> q = p @ dot # decimal j @ s \<and> (s = [] \<or> hd s = dot)"
proof (induction el p d and cs i p d arbitrary: q d' e and q d' e rule: visits_visits_children.induct)
  case (1 n t cs path depth)
  from "1.prems" consider "q = path" | "(q, d', e) \<in> set (visits_children cs 0 path depth)"
    by auto
  then show ?case
  proof cases
    case 1
    then show ?thesis by simp
  next
    case 2
    from "1.IH" [OF 2] obtain j s where "q = path @ dot # decimal j @ s" by blast
    then have "q = path @ (dot # decimal j @ s) \<and> hd (dot # decimal j @ s) = dot" by simp
    then show ?thesis by blast
  qed
next
  case (2 i path depth)
  then show ?case by simp
next
  case (3 child rest i path depth)
  from "3.prems" consider
      (a) "(q, d', e) \<in> set (visits child (childPath path i) (depth + 1))"
    | (b) "(q, d', e) \<in> set (visits_children rest (Suc i) path depth)"
    by auto
  then show ?case
  proof cases
    case a
    from "3.IH"(1) [OF a] obtain s where s: "q = childPath path i @ s" "s = [] \<or> hd s = dot"
      by blast
    then have "i \<le> i \<and> i < i + length (child # rest) \<and> q = path @ dot # decimal i @ s
        \<and> (s = [] \<or> hd s = dot)"
      by (simp add: childPath_eq)
    then show ?thesis by blast
  next
    case b
    from "3.IH"(2) [OF b] obtain j s where
      "Suc i \<le> j" "j < Suc i + length rest" "q = path @ dot # decimal j @ s" "s = [] \<or> hd s = dot"
      by blast
    then have "i \<le> j \<and> j < i + length (child # rest) \<and> q = path @ dot # decimal j @ s
        \<and> (s = [] \<or> hd s = dot)"
      by simp
    then show ?thesis by blast
  qed
qed

lemma visits_distinct:
  "distinct (map fst (visits el p d))"
  "distinct (map fst (visits_children cs i p d))"
proof (induction el p d and cs i p d rule: visits_visits_children.induct)
  case (1 n t cs path depth)
  have "path \<notin> fst ` set (visits_children cs 0 path depth)"
  proof
    assume "path \<in> fst ` set (visits_children cs 0 path depth)"
    then obtain d' e where "(path, d', e) \<in> set (visits_children cs 0 path depth)" by auto
    from visits_form(2) [OF this] obtain j s where "path = path @ dot # decimal j @ s" by blast
    then show False by simp
  qed
  with 1 show ?case by simp
next
  case (2 i path depth)
  then show ?case by simp
next
  case (3 child rest i path depth)
  have "fst ` set (visits child (childPath path i) (depth + 1))
      \<inter> fst ` set (visits_children rest (Suc i) path depth) = {}"
  proof (rule ccontr)
    assume "\<not> ?thesis"
    then obtain q d1 e1 d2 e2 where
      m1: "(q, d1, e1) \<in> set (visits child (childPath path i) (depth + 1))" and
      m2: "(q, d2, e2) \<in> set (visits_children rest (Suc i) path depth)"
      by auto
    from visits_form(1) [OF m1] obtain s where
      s: "q = childPath path i @ s" "s = [] \<or> hd s = dot" by blast
    from visits_form(2) [OF m2] obtain j s' where
      j: "Suc i \<le> j" "q = path @ dot # decimal j @ s'" "s' = [] \<or> hd s' = dot" by blast
    from s(1) j(2) have "decimal i @ s = decimal j @ s'" by (simp add: childPath_eq)
    with s(2) j(3) have "decimal i = decimal j"
      by (intro segment_unique [of "decimal i" "decimal j" s s'] decimal_no_dot)
    then have "i = j" by (rule decimal_inj)
    with j(1) show False by simp
  qed
  with 3 show ?case by simp
qed

lemma visits_root: "(p, d, el) \<in> set (visits el p d)"
  by (cases el) simp

lemma visits_children_nth:
  "i < length cs \<Longrightarrow>
     set (visits (cs ! i) (childPath p (k + i)) (d + 1)) \<subseteq> set (visits_children cs k p d)"
proof (induction cs arbitrary: i k)
  case Nil
  then show ?case by simp
next
  case (Cons c cs)
  show ?case
  proof (cases i)
    case 0
    then show ?thesis by simp
  next
    case (Suc i')
    with Cons.prems have "i' < length cs" by simp
    from Cons.IH [OF this, of "Suc k"] Suc show ?thesis by auto
  qed
qed

lemma visits_closed:
  "(q, d', e) \<in> set (visits el p d) \<Longrightarrow> i < length (children e) \<Longrightarrow>
     (childPath q i, d' + 1, children e ! i) \<in> set (visits el p d)"
  "(q, d', e) \<in> set (visits_children cs k p d) \<Longrightarrow> i < length (children e) \<Longrightarrow>
     (childPath q i, d' + 1, children e ! i) \<in> set (visits_children cs k p d)"
proof (induction el p d and cs k p d rule: visits_visits_children.induct)
  case (1 n t cs path depth)
  from "1.prems"(1) consider "(q, d', e) = (path, depth, Element n t cs)"
    | "(q, d', e) \<in> set (visits_children cs 0 path depth)"
    by auto
  then show ?case
  proof cases
    case 1
    with "1.prems"(2) have i: "i < length cs" by auto
    have "(childPath path (0 + i), depth + 1, cs ! i)
        \<in> set (visits (cs ! i) (childPath path (0 + i)) (depth + 1))"
      by (rule visits_root)
    with visits_children_nth [OF i, of path 0 depth]
    have "(childPath path i, depth + 1, cs ! i) \<in> set (visits_children cs 0 path depth)"
      by auto
    with 1 show ?thesis by simp
  next
    case 2
    from "1.IH" [OF 2 "1.prems"(2)] show ?thesis by simp
  qed
next
  case (2 k path depth)
  then show ?case by simp
next
  case (3 child rest k path depth)
  from "3.prems"(1) consider
      (a) "(q, d', e) \<in> set (visits child (childPath path k) (depth + 1))"
    | (b) "(q, d', e) \<in> set (visits_children rest (Suc k) path depth)"
    by auto
  then show ?case
  proof cases
    case a
    from "3.IH"(1) [OF a "3.prems"(2)] show ?thesis by simp
  next
    case b
    from "3.IH"(2) [OF b "3.prems"(2)] show ?thesis by simp
  qed
qed

lemma visits_parent:
  "(q, d', e) \<in> set (visits el p d) \<Longrightarrow>
     (q, d', e) = (p, d, el) \<or>
     (\<exists>q0 d0 e0 i. (q0, d0, e0) \<in> set (visits el p d) \<and> i < length (children e0) \<and>
        q = childPath q0 i \<and> d' = d0 + 1 \<and> e = children e0 ! i)"
  "(q, d', e) \<in> set (visits_children cs k p d) \<Longrightarrow>
     (\<exists>i < length cs. (q, d', e) = (childPath p (k + i), d + 1, cs ! i)) \<or>
     (\<exists>q0 d0 e0 i. (q0, d0, e0) \<in> set (visits_children cs k p d) \<and> i < length (children e0) \<and>
        q = childPath q0 i \<and> d' = d0 + 1 \<and> e = children e0 ! i)"
proof (induction el p d and cs k p d rule: visits_visits_children.induct)
  case (1 n t cs path depth)
  from "1.prems" consider "(q, d', e) = (path, depth, Element n t cs)"
    | "(q, d', e) \<in> set (visits_children cs 0 path depth)"
    by auto
  then show ?case
  proof cases
    case 1
    then show ?thesis by simp
  next
    case 2
    from "1.IH" [OF 2] show ?thesis
    proof
      assume "\<exists>i<length cs. (q, d', e) = (childPath path (0 + i), depth + 1, cs ! i)"
      then obtain i where "i < length cs" "q = childPath path i" "d' = depth + 1" "e = cs ! i"
        by auto
      then have "(path, depth, Element n t cs) \<in> set (visits (Element n t cs) path depth) \<and>
          i < length (children (Element n t cs)) \<and> q = childPath path i \<and> d' = depth + 1 \<and>
          e = children (Element n t cs) ! i"
        by simp
      then show ?thesis by blast
    next
      assume "\<exists>q0 d0 e0 i. (q0, d0, e0) \<in> set (visits_children cs 0 path depth) \<and>
        i < length (children e0) \<and> q = childPath q0 i \<and> d' = d0 + 1 \<and> e = children e0 ! i"
      then obtain q0 d0 e0 i where "(q0, d0, e0) \<in> set (visits_children cs 0 path depth)"
        "i < length (children e0)" "q = childPath q0 i" "d' = d0 + 1" "e = children e0 ! i"
        by blast
      then have "(q0, d0, e0) \<in> set (visits (Element n t cs) path depth) \<and>
        i < length (children e0) \<and> q = childPath q0 i \<and> d' = d0 + 1 \<and> e = children e0 ! i"
        by simp
      then show ?thesis by blast
    qed
  qed
next
  case (2 k path depth)
  then show ?case by simp
next
  case (3 child rest k path depth)
  let ?all = "visits_children (child # rest) k path depth"
  from "3.prems" consider
      (a) "(q, d', e) \<in> set (visits child (childPath path k) (depth + 1))"
    | (b) "(q, d', e) \<in> set (visits_children rest (Suc k) path depth)"
    by auto
  then show ?case
  proof cases
    case a
    from "3.IH"(1) [OF a] show ?thesis
    proof
      assume "(q, d', e) = (childPath path k, depth + 1, child)"
      then have "0 < length (child # rest) \<and>
          (q, d', e) = (childPath path (k + 0), depth + 1, (child # rest) ! 0)"
        by simp
      then show ?thesis by blast
    next
      assume "\<exists>q0 d0 e0 i. (q0, d0, e0) \<in> set (visits child (childPath path k) (depth + 1)) \<and>
        i < length (children e0) \<and> q = childPath q0 i \<and> d' = d0 + 1 \<and> e = children e0 ! i"
      then obtain q0 d0 e0 i where
        "(q0, d0, e0) \<in> set (visits child (childPath path k) (depth + 1))"
        "i < length (children e0)" "q = childPath q0 i" "d' = d0 + 1" "e = children e0 ! i"
        by blast
      then have "(q0, d0, e0) \<in> set ?all \<and>
        i < length (children e0) \<and> q = childPath q0 i \<and> d' = d0 + 1 \<and> e = children e0 ! i"
        by simp
      then show ?thesis by blast
    qed
  next
    case b
    from "3.IH"(2) [OF b] show ?thesis
    proof
      assume "\<exists>i<length rest. (q, d', e) = (childPath path (Suc k + i), depth + 1, rest ! i)"
      then obtain i where "i < length rest"
        "(q, d', e) = (childPath path (Suc k + i), depth + 1, rest ! i)" by blast
      then have "Suc i < length (child # rest) \<and>
          (q, d', e) = (childPath path (k + Suc i), depth + 1, (child # rest) ! Suc i)"
        by simp
      then show ?thesis by blast
    next
      assume "\<exists>q0 d0 e0 i. (q0, d0, e0) \<in> set (visits_children rest (Suc k) path depth) \<and>
        i < length (children e0) \<and> q = childPath q0 i \<and> d' = d0 + 1 \<and> e = children e0 ! i"
      then obtain q0 d0 e0 i where
        "(q0, d0, e0) \<in> set (visits_children rest (Suc k) path depth)"
        "i < length (children e0)" "q = childPath q0 i" "d' = d0 + 1" "e = children e0 ! i"
        by blast
      then have "(q0, d0, e0) \<in> set ?all \<and>
        i < length (children e0) \<and> q = childPath q0 i \<and> d' = d0 + 1 \<and> e = children e0 ! i"
        by simp
      then show ?thesis by blast
    qed
  qed
qed

lemma childPath_strict_prefix: "strict_prefix q (childPath q i)"
  by (simp add: childPath_def str_def strict_prefix_def)

lemma nodes_path_prefix:
  assumes "(q, d, e) \<in> set (nodes root)"
  shows "prefix (str ''0'') q"
proof -
  from assms have "(q, d, e) \<in> set (visits root (str ''0'') 0)"
    by (simp only: nodes_def)
  from visits_form(1) [OF this] obtain s where "q = str ''0'' @ s" by blast
  then show ?thesis by simp
qed

lemma nodes_structure:
  "distinct (map fst (nodes root)) \<and>
   (str ''0'', 0, root) \<in> set (nodes root) \<and>
   (\<forall>(q, d, e) \<in> set (nodes root). \<forall>i < length (children e).
      (childPath q i, d + 1, children e ! i) \<in> set (nodes root) \<and>
      strict_prefix q (childPath q i)) \<and>
   (\<forall>(q, d, e) \<in> set (nodes root).
      (q, d, e) = (str ''0'', 0, root) \<or>
      (\<exists>(q0, d0, e0) \<in> set (nodes root). \<exists>i < length (children e0).
         q = childPath q0 i \<and> d = d0 + 1 \<and> e = children e0 ! i))"
proof (intro conjI)
  show "distinct (map fst (nodes root))"
    unfolding nodes_def by (rule visits_distinct)
  show "(str ''0'', 0, root) \<in> set (nodes root)"
    unfolding nodes_def by (rule visits_root)
  show "\<forall>(q, d, e) \<in> set (nodes root). \<forall>i < length (children e).
      (childPath q i, d + 1, children e ! i) \<in> set (nodes root) \<and>
      strict_prefix q (childPath q i)"
    unfolding nodes_def using visits_closed(1) childPath_strict_prefix by blast
  show "\<forall>(q, d, e) \<in> set (nodes root).
      (q, d, e) = (str ''0'', 0, root) \<or>
      (\<exists>(q0, d0, e0) \<in> set (nodes root). \<exists>i < length (children e0).
         q = childPath q0 i \<and> d = d0 + 1 \<and> e = children e0 ! i)"
  proof -
    have "(q, d, e) = (str ''0'', 0, root) \<or>
      (\<exists>(q0, d0, e0) \<in> set (nodes root). \<exists>i < length (children e0).
         q = childPath q0 i \<and> d = d0 + 1 \<and> e = children e0 ! i)"
      if m: "(q, d, e) \<in> set (nodes root)" for q d e
    proof -
      from m visits_parent(1) [of q d e root "str ''0''" 0]
      consider "(q, d, e) = (str ''0'', 0, root)"
        | q0 d0 e0 i where "(q0, d0, e0) \<in> set (nodes root)" "i < length (children e0)"
          "q = childPath q0 i" "d = d0 + 1" "e = children e0 ! i"
        unfolding nodes_def by blast
      then show ?thesis
      proof cases
        case 1
        then show ?thesis by simp
      next
        case 2
        then show ?thesis by (intro disjI2 bexI [of _ "(q0, d0, e0)"]) auto
      qed
    qed
    then show ?thesis by blast
  qed
qed

lemmas sample_defs = sample_def elem_a_def elem_b_def elem_c_def

lemma nodes_sample:
  "nodes sample =
     [(str ''0'', 0, sample), (str ''0.0'', 1, elem_a),
      (str ''0.1'', 1, elem_b), (str ''0.1.0'', 2, elem_c)]"
  by (simp add: nodes_def sample_defs childPath_def str_def decimal.simps digit_def)

section \<open>The collapse maps of a tree\<close>

lemma writes_Nil: "writes f [] m = m"
  by (simp add: writes_def)

lemma writes_Cons: "writes f ((q, d, e) # vs) m = writes f vs (m(q \<mapsto> f d))"
  by (simp add: writes_def)

lemma writes_append: "writes f (vs @ ws) m = writes f ws (writes f vs m)"
  by (simp add: writes_def)

lemma writes_dom: "dom (writes f vs m) = dom m \<union> fst ` set vs"
proof (induction vs arbitrary: m)
  case Nil
  show ?case by (simp add: writes_Nil)
next
  case (Cons v vs)
  obtain q d e where v: "v = (q, d, e)" by (cases v)
  show ?case unfolding v writes_Cons Cons.IH by auto
qed

lemma writes_other: "q \<notin> fst ` set vs \<Longrightarrow> writes f vs m q = m q"
proof (induction vs arbitrary: m)
  case Nil
  show ?case by (simp add: writes_Nil)
next
  case (Cons v vs)
  obtain q' d e where v: "v = (q', d, e)" by (cases v)
  from Cons.prems have "q \<noteq> q'" "q \<notin> fst ` set vs" by (auto simp: v)
  have "writes f (v # vs) m q = writes f vs (m(q' \<mapsto> f d)) q"
    by (simp only: v writes_Cons)
  also have "\<dots> = (m(q' \<mapsto> f d)) q"
    using \<open>q \<notin> fst ` set vs\<close> by (rule Cons.IH)
  also have "\<dots> = m q"
    using \<open>q \<noteq> q'\<close> by simp
  finally show ?case .
qed

lemma writes_value:
  "distinct (map fst vs) \<Longrightarrow> (q, d, e) \<in> set vs \<Longrightarrow> writes f vs m q = Some (f d)"
proof (induction vs arbitrary: m)
  case Nil
  then show ?case by simp
next
  case (Cons v vs)
  obtain q' d' e' where v: "v = (q', d', e')" by (cases v)
  from Cons.prems(1) have dist: "distinct (map fst vs)" and fresh: "q' \<notin> fst ` set vs"
    by (simp_all add: v)
  from Cons.prems(2) consider "(q, d, e) = (q', d', e')" | "(q, d, e) \<in> set vs"
    by (auto simp: v)
  then show ?case
  proof cases
    case 1
    with writes_other [OF fresh, of f "m(q' \<mapsto> f d')"] show ?thesis
      by (simp add: v writes_Cons)
  next
    case 2
    from Cons.IH [OF dist 2] show ?thesis by (simp add: v writes_Cons)
  qed
qed

lemma traverse_default_writes:
  "traverse_default el p d m = writes (\<lambda>d. d > 0) (visits el p d) m"
  "forEach_default cs i p d m = writes (\<lambda>d. d > 0) (visits_children cs i p d) m"
proof (induction el p d m and cs i p d m rule: traverse_default_forEach_default.induct)
  case (1 n t cs path d m)
  have "traverse_default (Element n t cs) path d m =
      forEach_default cs 0 path d (m(path \<mapsto> (\<lambda>d. d > 0) d))"
    by simp
  also have "\<dots> = writes (\<lambda>d. d > 0) (visits_children cs 0 path d) (m(path \<mapsto> (\<lambda>d. d > 0) d))"
    by (rule "1.IH")
  also have "\<dots> = writes (\<lambda>d. d > 0) (visits (Element n t cs) path d) m"
    by (simp only: visits.simps writes_Cons)
  finally show ?case .
next
  case (2 i path d m)
  show ?case by (simp add: writes_Nil)
next
  case (3 child rest i path d m)
  have "forEach_default (child # rest) i path d m =
      forEach_default rest (Suc i) path d (traverse_default child (childPath path i) (d + 1) m)"
    by simp
  also have "\<dots> = writes (\<lambda>d. d > 0) (visits_children rest (Suc i) path d)
      (traverse_default child (childPath path i) (d + 1) m)"
    by (rule "3.IH"(2))
  also have "\<dots> = writes (\<lambda>d. d > 0) (visits_children rest (Suc i) path d)
      (writes (\<lambda>d. d > 0) (visits child (childPath path i) (d + 1)) m)"
    by (simp only: "3.IH"(1))
  also have "\<dots> = writes (\<lambda>d. d > 0) (visits_children (child # rest) i path d) m"
    by (simp only: visits_children.simps writes_append)
  finally show ?case .
qed

lemma traverse_expand_writes:
  "traverse_expand el p m = writes (\<lambda>d. False) (visits el p d) m"
  "forEach_expand cs i p m = writes (\<lambda>d. False) (visits_children cs i p d) m"
proof (induction el p m and cs i p m arbitrary: d and d rule: traverse_expand_forEach_expand.induct)
  case (1 n t cs path m)
  have "traverse_expand (Element n t cs) path m =
      forEach_expand cs 0 path (m(path \<mapsto> (\<lambda>d. False) d))"
    by simp
  also have "\<dots> = writes (\<lambda>d. False) (visits_children cs 0 path d) (m(path \<mapsto> (\<lambda>d. False) d))"
    by (rule "1.IH")
  also have "\<dots> = writes (\<lambda>d. False) (visits (Element n t cs) path d) m"
    by (simp only: visits.simps writes_Cons)
  finally show ?case .
next
  case (2 i path m)
  show ?case by (simp add: writes_Nil)
next
  case (3 child rest i path m)
  have "forEach_expand (child # rest) i path m =
      forEach_expand rest (Suc i) path (traverse_expand child (childPath path i) m)"
    by simp
  also have "\<dots> = writes (\<lambda>d. False) (visits_children rest (Suc i) path d)
      (traverse_expand child (childPath path i) m)"
    by (rule "3.IH"(2))
  also have "\<dots> = writes (\<lambda>d. False) (visits_children rest (Suc i) path d)
      (writes (\<lambda>d. False) (visits child (childPath path i) (d + 1)) m)"
    by (simp only: "3.IH"(1) [of "d + 1"])
  also have "\<dots> = writes (\<lambda>d. False) (visits_children (child # rest) i path d) m"
    by (simp only: visits_children.simps writes_append)
  finally show ?case .
qed

lemma traverse_collapse_writes:
  "traverse_collapse el p m = writes (\<lambda>d. True) (visits el p d) m"
  "forEach_collapse cs i p m = writes (\<lambda>d. True) (visits_children cs i p d) m"
proof (induction el p m and cs i p m arbitrary: d and d rule: traverse_collapse_forEach_collapse.induct)
  case (1 n t cs path m)
  have "traverse_collapse (Element n t cs) path m =
      forEach_collapse cs 0 path (m(path \<mapsto> (\<lambda>d. True) d))"
    by simp
  also have "\<dots> = writes (\<lambda>d. True) (visits_children cs 0 path d) (m(path \<mapsto> (\<lambda>d. True) d))"
    by (rule "1.IH")
  also have "\<dots> = writes (\<lambda>d. True) (visits (Element n t cs) path d) m"
    by (simp only: visits.simps writes_Cons)
  finally show ?case .
next
  case (2 i path m)
  show ?case by (simp add: writes_Nil)
next
  case (3 child rest i path m)
  have "forEach_collapse (child # rest) i path m =
      forEach_collapse rest (Suc i) path (traverse_collapse child (childPath path i) m)"
    by simp
  also have "\<dots> = writes (\<lambda>d. True) (visits_children rest (Suc i) path d)
      (traverse_collapse child (childPath path i) m)"
    by (rule "3.IH"(2))
  also have "\<dots> = writes (\<lambda>d. True) (visits_children rest (Suc i) path d)
      (writes (\<lambda>d. True) (visits child (childPath path i) (d + 1)) m)"
    by (simp only: "3.IH"(1) [of "d + 1"])
  also have "\<dots> = writes (\<lambda>d. True) (visits_children (child # rest) i path d) m"
    by (simp only: visits_children.simps writes_append)
  finally show ?case .
qed

lemma generateDefaultCollapsedMap_writes:
  "generateDefaultCollapsedMap root = writes (\<lambda>d. d > 0) (nodes root) Map.empty"
  by (simp only: generateDefaultCollapsedMap_def nodes_def traverse_default_writes(1))

lemma expandAll_writes: "expandAll root = writes (\<lambda>d. False) (nodes root) Map.empty"
  by (simp only: expandAll_def nodes_def traverse_expand_writes(1) [of _ _ _ 0])

lemma collapseAll_writes: "collapseAll root = writes (\<lambda>d. True) (nodes root) Map.empty"
  by (simp only: collapseAll_def nodes_def traverse_collapse_writes(1) [of _ _ _ 0])

lemma nodes_distinct: "distinct (map fst (nodes root))"
  unfolding nodes_def by (rule visits_distinct)

lemma visits_depth:
  "(q, d', e) \<in> set (visits el p d) \<Longrightarrow> d \<le> d'"
  "(q, d', e) \<in> set (visits_children cs i p d) \<Longrightarrow> d < d'"
  by (induction el p d and cs i p d rule: visits_visits_children.induct) fastforce+

lemma nodes_unfold:
  "nodes root = (str ''0'', 0, root) # visits_children (children root) 0 (str ''0'') 0"
  by (cases root) (simp add: nodes_def)

text \<open>
  Claim C3. The default map has \<open>false\<close> at the root's path \<open>0\<close>; every node's
  entry is \<open>depth > 0\<close>; every node after the root in the enumeration, an internal node
  in particular, has the entry \<open>true\<close>.
\<close>

theorem default_map_entries:
  "generateDefaultCollapsedMap root (str ''0'') = Some False \<and>
   (\<forall>(q, d, e) \<in> set (nodes root). generateDefaultCollapsedMap root q = Some (d > 0)) \<and>
   (\<forall>(q, d, e) \<in> set (tl (nodes root)). generateDefaultCollapsedMap root q = Some True)"
proof (intro conjI)
  have entry: "generateDefaultCollapsedMap root q = Some (d > 0)"
    if "(q, d, e) \<in> set (nodes root)" for q d e
    unfolding generateDefaultCollapsedMap_writes
    using nodes_distinct that by (rule writes_value)
  have "(str ''0'', 0, root) \<in> set (nodes root)"
    by (simp add: nodes_unfold)
  from entry [OF this] show "generateDefaultCollapsedMap root (str ''0'') = Some False"
    by simp
  from entry show "\<forall>(q, d, e) \<in> set (nodes root). generateDefaultCollapsedMap root q = Some (d > 0)"
    by blast
  have "generateDefaultCollapsedMap root q = Some True"
    if m: "(q, d, e) \<in> set (tl (nodes root))" for q d e
  proof -
    from m have c: "(q, d, e) \<in> set (visits_children (children root) 0 (str ''0'') 0)"
      by (simp add: nodes_unfold)
    then have "0 < d" by (rule visits_depth(2))
    moreover from c have "(q, d, e) \<in> set (nodes root)" by (simp add: nodes_unfold)
    ultimately show ?thesis using entry by simp
  qed
  then show "\<forall>(q, d, e) \<in> set (tl (nodes root)). generateDefaultCollapsedMap root q = Some True"
    by blast
qed

theorem default_map_entries_witness:
  "(str ''0.1'', 1, elem_b) \<in> set (tl (nodes sample)) \<and>
   (str ''0.1'', 1, elem_b) \<in> set (nodes sample) \<and>
   generateDefaultCollapsedMap sample (str ''0'') = Some False \<and>
   generateDefaultCollapsedMap sample (str ''0.1'') = Some ((1::int) > 0) \<and>
   generateDefaultCollapsedMap sample (str ''0.1'') = Some True"
proof -
  have t: "(str ''0.1'', 1, elem_b) \<in> set (tl (nodes sample))"
    by (simp add: nodes_sample)
  have n: "(str ''0.1'', 1, elem_b) \<in> set (nodes sample)"
    by (simp add: nodes_sample)
  note u = default_map_entries [of sample]
  from u have 1: "generateDefaultCollapsedMap sample (str ''0'') = Some False"
    by (elim conjE)
  from u have "\<forall>(q, d, e) \<in> set (nodes sample).
      generateDefaultCollapsedMap sample q = Some (d > 0)"
    by (elim conjE)
  from bspec [OF this n]
  have 2: "generateDefaultCollapsedMap sample (str ''0.1'') = Some ((1::int) > 0)"
    by (simp only: prod.case)
  from u have "\<forall>(q, d, e) \<in> set (tl (nodes sample)).
      generateDefaultCollapsedMap sample q = Some True"
    by (elim conjE)
  from bspec [OF this t]
  have 3: "generateDefaultCollapsedMap sample (str ''0.1'') = Some True"
    by (simp only: prod.case)
  from t n 1 2 3 show ?thesis by - (intro conjI; assumption)
qed

text \<open>
  Claim C2, as the code has it. ``Collapse all'' maps the path of every node, leaf or
  internal, to \<open>true\<close> and ``Expand all'' maps it to \<open>false\<close>; the keys of both maps
  are the paths of all nodes.
\<close>

theorem setAll_entries:
  "(\<forall>(q, d, e) \<in> set (nodes T). collapseAll T q = Some True \<and> expandAll T q = Some False) \<and>
   dom (collapseAll T) = fst ` set (nodes T) \<and>
   dom (expandAll T) = fst ` set (nodes T)"
proof (intro conjI)
  have "collapseAll T q = Some True \<and> expandAll T q = Some False"
    if m: "(q, d, e) \<in> set (nodes T)" for q d e
  proof
    show "collapseAll T q = Some True"
      unfolding collapseAll_writes using nodes_distinct m by (rule writes_value)
    show "expandAll T q = Some False"
      unfolding expandAll_writes using nodes_distinct m by (rule writes_value)
  qed
  then show "\<forall>(q, d, e) \<in> set (nodes T). collapseAll T q = Some True \<and> expandAll T q = Some False"
    by blast
  show "dom (collapseAll T) = fst ` set (nodes T)"
    by (simp add: collapseAll_writes writes_dom)
  show "dom (expandAll T) = fst ` set (nodes T)"
    by (simp add: expandAll_writes writes_dom)
qed

theorem setAll_entries_witness:
  "(str ''0.1.0'', 2, elem_c) \<in> set (nodes sample) \<and> children elem_c = [] \<and>
   collapseAll sample (str ''0.1.0'') = Some True \<and>
   expandAll sample (str ''0.1.0'') = Some False"
proof -
  have n: "(str ''0.1.0'', 2, elem_c) \<in> set (nodes sample)"
    by (simp add: nodes_sample)
  have l: "children elem_c = []"
    by (simp add: elem_c_def)
  from setAll_entries [of sample]
  have "\<forall>(q, d, e) \<in> set (nodes sample).
      collapseAll sample q = Some True \<and> expandAll sample q = Some False"
    by (elim conjE)
  from bspec [OF this n]
  have "collapseAll sample (str ''0.1.0'') = Some True \<and>
      expandAll sample (str ''0.1.0'') = Some False"
    by (simp only: prod.case)
  with n l show ?thesis by - (intro conjI; (elim conjE)?; assumption)
qed

text \<open>
  The claim C2 as the specification words it fails on the sample document: the leaf
  \<open>a\<close> at path \<open>0.0\<close> is a key of both maps, which therefore are not the two-entry maps
  of the specification's scenario.
\<close>

theorem setAll_leaf_counterexample:
  "(str ''0.0'', 1, elem_a) \<in> set (nodes sample) \<and> children elem_a = [] \<and>
   str ''0.0'' \<in> dom (collapseAll sample) \<and> str ''0.0'' \<in> dom (expandAll sample) \<and>
   collapseAll sample \<noteq> [str ''0'' \<mapsto> True, str ''0.1'' \<mapsto> True] \<and>
   expandAll sample \<noteq> [str ''0'' \<mapsto> False, str ''0.1'' \<mapsto> False]"
proof -
  have c: "collapseAll sample (str ''0.0'') = Some True"
    by (simp add: collapseAll_def sample_defs childPath_def str_def decimal.simps digit_def)
  have e: "expandAll sample (str ''0.0'') = Some False"
    by (simp add: expandAll_def sample_defs childPath_def str_def decimal.simps digit_def)
  have c': "[str ''0'' \<mapsto> True, str ''0.1'' \<mapsto> True] (str ''0.0'') = None"
    by (simp add: str_def)
  have e': "[str ''0'' \<mapsto> False, str ''0.1'' \<mapsto> False] (str ''0.0'') = None"
    by (simp add: str_def)
  from c c' have "collapseAll sample \<noteq> [str ''0'' \<mapsto> True, str ''0.1'' \<mapsto> True]"
    by (metis option.distinct(1))
  moreover from e e' have "expandAll sample \<noteq> [str ''0'' \<mapsto> False, str ''0.1'' \<mapsto> False]"
    by (metis option.distinct(1))
  moreover have "(str ''0.0'', 1, elem_a) \<in> set (nodes sample)"
    by (simp add: nodes_sample)
  moreover have "children elem_a = []"
    by (simp add: elem_a_def)
  ultimately show ?thesis using c e by (simp add: domI)
qed

text \<open>
  Claim C10. The default map, the ``Expand all'' map and the ``Collapse all'' map of a
  tree have the same keys: the paths of all nodes of the enumeration, leaves included.
\<close>

theorem builders_same_keys:
  "dom (generateDefaultCollapsedMap T) = fst ` set (nodes T) \<and>
   dom (expandAll T) = fst ` set (nodes T) \<and>
   dom (collapseAll T) = fst ` set (nodes T)"
  by (simp add: generateDefaultCollapsedMap_writes expandAll_writes collapseAll_writes writes_dom)

section \<open>Toggling one node\<close>

text \<open>
  Claim C4. The map handed to \<open>setCollapsedMap\<close> has the negation of the current value
  at \<open>path\<close> and the input's entry at every other key; with the objects in a store,
  it is a newly allocated object and every object already in the store, the input
  included, is as before.
\<close>

theorem toggle_frame:
  "toggle m p v p = Some (\<not> v) \<and>
   (q \<noteq> p \<longrightarrow> toggle m p v q = m q) \<and>
   (r < length h \<longrightarrow>
      (\<exists>h' r'. toggle_store h r p v = Some (h', r') \<and> r' \<noteq> r \<and> r' = length h \<and>
         length h' = Suc (length h) \<and> h' ! r' = toggle (h ! r) p v \<and>
         (\<forall>a < length h. h' ! a = h ! a)))"
  by (simp add: toggle_def toggle_store_def nth_append)

theorem toggle_frame_witness:
  "str ''0'' \<noteq> str ''0.1'' \<and> (0::nat) < length [[str ''0'' \<mapsto> False, str ''0.1'' \<mapsto> True]] \<and>
   toggle [str ''0'' \<mapsto> False, str ''0.1'' \<mapsto> True] (str ''0.1'') True (str ''0.1'') = Some False \<and>
   toggle [str ''0'' \<mapsto> False, str ''0.1'' \<mapsto> True] (str ''0.1'') True (str ''0'') = Some False \<and>
   (\<exists>h' r'. toggle_store [[str ''0'' \<mapsto> False, str ''0.1'' \<mapsto> True]] 0 (str ''0.1'') True
        = Some (h', r') \<and> r' = 1 \<and>
      h' ! 0 = [str ''0'' \<mapsto> False, str ''0.1'' \<mapsto> True])"
proof -
  let ?m = "[str ''0'' \<mapsto> False, str ''0.1'' \<mapsto> True]"
  have ne: "str ''0'' \<noteq> str ''0.1''" by (simp add: str_def)
  have len: "(0::nat) < length [?m]" by simp
  note u = toggle_frame [of ?m "str ''0.1''" True "str ''0''" 0 "[?m]"]
  from u have 1: "toggle ?m (str ''0.1'') True (str ''0.1'') = Some False" by simp
  from u ne have 2: "toggle ?m (str ''0.1'') True (str ''0'') = Some False" by simp
  from u len obtain h' r' where s: "toggle_store [?m] 0 (str ''0.1'') True = Some (h', r')"
    "r' = length [?m]" "\<forall>a < length [?m]. h' ! a = [?m] ! a"
    by blast
  from s(3) have "h' ! 0 = ?m" by simp
  with s(1,2) have 3: "\<exists>h' r'. toggle_store [?m] 0 (str ''0.1'') True = Some (h', r') \<and> r' = 1 \<and>
      h' ! 0 = ?m"
    by simp
  from ne len 1 2 3 show ?thesis by - (intro conjI; assumption)
qed

text \<open>
  Claim C5, as the code has it. Toggling twice, the second time with the negated value,
  gives the first map with \<open>p\<close> set to \<open>v\<close>; that is the first map again when it
  already has \<open>v\<close> at \<open>p\<close>.
\<close>

theorem toggle_twice:
  "toggle (toggle m p v) p (\<not> v) = m(p \<mapsto> v) \<and>
   (m p = Some v \<longrightarrow> toggle (toggle m p v) p (\<not> v) = m)"
  by (auto simp: toggle_def fun_upd_idem_iff)

theorem toggle_twice_witness:
  "[str ''0'' \<mapsto> False] (str ''0'') = Some False \<and>
   toggle (toggle [str ''0'' \<mapsto> False] (str ''0'') False) (str ''0'') (\<not> False)
     = [str ''0'' \<mapsto> False]"
proof -
  have h: "[str ''0'' \<mapsto> False] (str ''0'') = Some False" by simp
  from toggle_twice [of "[str ''0'' \<mapsto> False]" "str ''0''" False] h
  show ?thesis by blast
qed

text \<open>
  The claim C5 as the specification words it fails on the empty map: after the two
  toggles the key \<open>0\<close> is there.
\<close>

theorem toggle_twice_counterexample:
  "toggle (toggle Map.empty (str ''0'') False) (str ''0'') (\<not> False) \<noteq> Map.empty"
proof
  assume "toggle (toggle Map.empty (str ''0'') False) (str ''0'') (\<not> False) = Map.empty"
  then have "toggle (toggle Map.empty (str ''0'') False) (str ''0'') (\<not> False) (str ''0'') = None"
    by simp
  then show False by (simp add: toggle_def)
qed

text \<open>
  Claim C8. The collapsed state of a node is its entry in the map when there is one,
  and \<open>depth > 0\<close> when there is none.
\<close>

theorem collapsed_lookup:
  "(m p = Some b \<longrightarrow> XmlTree_collapsed m p depth = b) \<and>
   (m p = None \<longrightarrow> XmlTree_collapsed m p depth = (depth > 0))"
  by (simp add: XmlTree_collapsed_def)

theorem collapsed_lookup_witness:
  "[str ''0'' \<mapsto> True] (str ''0'') = Some True \<and>
   XmlTree_collapsed [str ''0'' \<mapsto> True] (str ''0'') 0 = True \<and>
   [str ''0'' \<mapsto> True] (str ''0.1'') = None \<and>
   XmlTree_collapsed [str ''0'' \<mapsto> True] (str ''0.1'') 1 = ((1::int) > 0) \<and>
   Map.empty (str ''0'') = (None :: bool option) \<and>
   XmlTree_collapsed Map.empty (str ''0'') 0 = ((0::int) > 0)"
proof -
  have a: "[str ''0'' \<mapsto> True] (str ''0'') = Some True" by simp
  have b: "[str ''0'' \<mapsto> True] (str ''0.1'') = None" by (simp add: str_def)
  have c: "Map.empty (str ''0'') = (None :: bool option)" by simp
  from collapsed_lookup [of "[str ''0'' \<mapsto> True]" "str ''0''" True 0] a
  have 1: "XmlTree_collapsed [str ''0'' \<mapsto> True] (str ''0'') 0 = True" by blast
  from collapsed_lookup [of "[str ''0'' \<mapsto> True]" "str ''0.1''" True 1] b
  have 2: "XmlTree_collapsed [str ''0'' \<mapsto> True] (str ''0.1'') 1 = ((1::int) > 0)" by blast
  from collapsed_lookup [of Map.empty "str ''0''" True 0] c
  have 3: "XmlTree_collapsed Map.empty (str ''0'') 0 = ((0::int) > 0)" by blast
  from a b c 1 2 3 show ?thesis by - (intro conjI; assumption)
qed

section \<open>Tag names\<close>

lemma js_split_not_Nil: "js_split sep s \<noteq> []"
  by (induction s) (auto split: list.splits)

lemma js_split_hd: "hd (js_split sep s) = takeWhile (\<lambda>c. c \<noteq> sep) s"
  by (induction s) (auto split: list.splits simp: js_split_not_Nil)

lemma js_split_tl:
  "tl (js_split sep s) =
     (case dropWhile (\<lambda>c. c \<noteq> sep) s of [] \<Rightarrow> [] | c # r \<Rightarrow> js_split sep r)"
proof (induction s)
  case Nil
  show ?case by simp
next
  case (Cons a s)
  show ?case
  proof (cases "a = sep")
    case True
    then show ?thesis by simp
  next
    case False
    obtain w ws where w: "js_split sep s = w # ws"
      using js_split_not_Nil [of sep s] by (cases "js_split sep s") auto
    with False have "tl (js_split sep (a # s)) = tl (js_split sep s)" by simp
    with False Cons.IH show ?thesis by simp
  qed
qed

lemma js_split_second:
  assumes "sep \<in> set s"
  shows "js_index (js_split sep s) 1 =
    Some (takeWhile (\<lambda>c. c \<noteq> sep) (tl (dropWhile (\<lambda>c. c \<noteq> sep) s)))"
proof -
  from assms have "dropWhile (\<lambda>c. c \<noteq> sep) s \<noteq> []" by auto
  then obtain c r where d: "dropWhile (\<lambda>c. c \<noteq> sep) s = c # r" by (cases "dropWhile (\<lambda>c. c \<noteq> sep) s") auto
  obtain w ws where w: "js_split sep s = w # ws"
    using js_split_not_Nil [of sep s] by (cases "js_split sep s") auto
  from js_split_tl [of sep s] d w have ws: "ws = js_split sep r" by simp
  obtain w' ws' where w': "js_split sep r = w' # ws'"
    using js_split_not_Nil [of sep r] by (cases "js_split sep r") auto
  from js_split_hd [of sep r] w' have "w' = takeWhile (\<lambda>c. c \<noteq> sep) r" by simp
  with w ws w' d show ?thesis by (simp add: js_index_def)
qed

lemma stripNamespace_defined: "\<exists>s. stripNamespace t = Some s"
  unfolding stripNamespace_def using js_split_second [of colon t] by simp

text \<open>
  Claim C6, as the code has it. A tag name without \<open>:\<close> is displayed unchanged. A tag
  name with \<open>:\<close> is displayed as the segment between the first \<open>:\<close> and the next one,
  which is all that follows the first \<open>:\<close> when there is no other.
\<close>

theorem stripNamespace_segment:
  "(colon \<notin> set t \<longrightarrow> stripNamespace t = Some t) \<and>
   (colon \<in> set t \<longrightarrow>
      stripNamespace t =
        Some (takeWhile (\<lambda>c. c \<noteq> colon) (tl (dropWhile (\<lambda>c. c \<noteq> colon) t)))) \<and>
   (colon \<notin> set a \<and> colon \<notin> set b \<longrightarrow> stripNamespace (a @ colon # b) = Some b) \<and>
   stripNamespace (str ''ns:Item'') = Some (str ''Item'') \<and>
   stripNamespace (str ''Item'') = Some (str ''Item'') \<and>
   stripNamespace (str ''a:b:c'') = Some (str ''b'')"
proof (intro conjI impI)
  show "stripNamespace t = Some t" if "colon \<notin> set t"
    using that by (simp add: stripNamespace_def)
  show "stripNamespace t =
      Some (takeWhile (\<lambda>c. c \<noteq> colon) (tl (dropWhile (\<lambda>c. c \<noteq> colon) t)))"
    if "colon \<in> set t"
    unfolding stripNamespace_def using that js_split_second [of colon t] by simp
  show "stripNamespace (a @ colon # b) = Some b" if "colon \<notin> set a \<and> colon \<notin> set b"
  proof -
    from that have a: "\<forall>c \<in> set a. c \<noteq> colon" and b: "\<forall>c \<in> set b. c \<noteq> colon" by auto
    from a have "dropWhile (\<lambda>c. c \<noteq> colon) (a @ colon # b) = colon # b"
      by (simp add: dropWhile_append3)
    moreover from b have "takeWhile (\<lambda>c. c \<noteq> colon) b = b" by simp
    moreover have "colon \<in> set (a @ colon # b)" by simp
    ultimately show ?thesis
      unfolding stripNamespace_def using js_split_second [of colon "a @ colon # b"] by simp
  qed
  show "stripNamespace (str ''ns:Item'') = Some (str ''Item'')"
    by (simp add: stripNamespace_def str_def colon_def js_index_def)
  show "stripNamespace (str ''Item'') = Some (str ''Item'')"
    by (simp add: stripNamespace_def str_def colon_def js_index_def)
  show "stripNamespace (str ''a:b:c'') = Some (str ''b'')"
    by (simp add: stripNamespace_def str_def colon_def js_index_def)
qed

theorem stripNamespace_segment_witness:
  "colon \<notin> set (str ''Item'') \<and> colon \<in> set (str ''xs:element'') \<and>
   colon \<notin> set (str ''xs'') \<and> colon \<notin> set (str ''element'') \<and>
   stripNamespace (str ''Item'') = Some (str ''Item'') \<and>
   stripNamespace (str ''xs:element'') = Some (str ''element'') \<and>
   stripNamespace (str ''xs'' @ colon # str ''element'') = Some (str ''element'')"
proof -
  have 1: "colon \<notin> set (str ''Item'')" by (simp add: str_def colon_def)
  have 2: "colon \<in> set (str ''xs:element'')" by (simp add: str_def colon_def)
  have 3: "colon \<notin> set (str ''xs'')" by (simp add: str_def colon_def)
  have 4: "colon \<notin> set (str ''element'')" by (simp add: str_def colon_def)
  have e: "takeWhile (\<lambda>c. c \<noteq> colon) (tl (dropWhile (\<lambda>c. c \<noteq> colon) (str ''xs:element'')))
      = str ''element''"
    by (simp add: str_def colon_def)
  from stripNamespace_segment [of "str ''Item''"] 1
  have 5: "stripNamespace (str ''Item'') = Some (str ''Item'')" by blast
  from stripNamespace_segment [of "str ''xs:element''"] 2
  have "stripNamespace (str ''xs:element'') =
      Some (takeWhile (\<lambda>c. c \<noteq> colon) (tl (dropWhile (\<lambda>c. c \<noteq> colon) (str ''xs:element''))))"
    by blast
  with e have 6: "stripNamespace (str ''xs:element'') = Some (str ''element'')" by simp
  from stripNamespace_segment [of _ "str ''xs''" "str ''element''"] 3 4
  have 7: "stripNamespace (str ''xs'' @ colon # str ''element'') = Some (str ''element'')" by blast
  from 1 2 3 4 5 6 7 show ?thesis by - (intro conjI; assumption)
qed

text \<open>
  The claim C6 as the specification words it fails on \<open>a:b:c\<close>: the display is \<open>b\<close>,
  not \<open>b:c\<close>.
\<close>

theorem stripNamespace_counterexample:
  "stripNamespace (str ''a:b:c'') = Some (str ''b'') \<and>
   stripNamespace (str ''a:b:c'') \<noteq> Some (str ''b:c'')"
  by (simp add: stripNamespace_def str_def colon_def js_index_def)

section \<open>Leaf text\<close>

lemma rev_dropWhile_split:
  "d = rev (dropWhile P (rev d)) @ rev (takeWhile P (rev d))"
proof -
  have "rev (dropWhile P (rev d)) @ rev (takeWhile P (rev d)) =
      rev (takeWhile P (rev d) @ dropWhile P (rev d))"
    by (simp only: rev_append)
  also have "\<dots> = rev (rev d)"
    by (simp only: takeWhile_dropWhile_id)
  also have "\<dots> = d"
    by simp
  finally show ?thesis by simp
qed

lemma trim_all_white_space:
  assumes "\<forall>x \<in> set c. isWhiteSpace x"
  shows "trim c = []"
proof -
  from assms have "dropWhile isWhiteSpace c = []"
    by simp
  then show ?thesis by (simp only: trim_def rev.simps dropWhile.simps)
qed

lemma trim_decomposition:
  "\<exists>a b. c = a @ trim c @ b \<and> (\<forall>x \<in> set a. isWhiteSpace x) \<and> (\<forall>x \<in> set b. isWhiteSpace x)"
proof -
  let ?P = isWhiteSpace
  let ?d = "dropWhile ?P c"
  have 1: "c = takeWhile ?P c @ ?d" by simp
  have 2: "?d = trim c @ rev (takeWhile ?P (rev ?d))"
    unfolding trim_def by (rule rev_dropWhile_split)
  have a: "\<forall>x \<in> set (takeWhile ?P c). ?P x"
    by (auto dest: set_takeWhileD)
  have b: "\<forall>x \<in> set (rev (takeWhile ?P (rev ?d))). ?P x"
    by (auto dest: set_takeWhileD)
  from 1 2 have "c = takeWhile ?P c @ trim c @ rev (takeWhile ?P (rev ?d))" by simp
  with a b show ?thesis by blast
qed

lemma trim_ends:
  assumes "trim c \<noteq> []"
  shows "\<not> isWhiteSpace (hd (trim c))" and "\<not> isWhiteSpace (last (trim c))"
proof -
  let ?P = isWhiteSpace
  let ?d = "dropWhile ?P c"
  let ?e = "dropWhile ?P (rev ?d)"
  from assms have e: "?e \<noteq> []" by (simp add: trim_def)
  have d: "?d \<noteq> []"
  proof
    assume "?d = []"
    then have "?e = []" by (simp only: rev.simps dropWhile.simps)
    with e show False by contradiction
  qed
  have "last (trim c) = hd ?e" using e by (simp add: trim_def last_rev)
  moreover from e have "\<not> ?P (hd ?e)" by (rule hd_dropWhile)
  ultimately show "\<not> ?P (last (trim c))" by simp
  have "?d = trim c @ rev (takeWhile ?P (rev ?d))"
    unfolding trim_def by (rule rev_dropWhile_split)
  with assms have "hd ?d = hd (trim c)" by (metis hd_append2)
  moreover from d have "\<not> ?P (hd ?d)" by (rule hd_dropWhile)
  ultimately show "\<not> ?P (hd (trim c))" by simp
qed

text \<open>
  Claim C9. Absent, empty and whitespace-only content render as the empty string.
  Otherwise the content is trimmed: up to 80 code units, 80 in particular, it renders
  as it is; beyond 80 it renders as its first 80 code units followed by \<open>...\<close>.
\<close>

theorem limitContent_cases:
  "limitContent None = [] \<and>
   limitContent (Some []) = [] \<and>
   ((\<forall>x \<in> set c. isWhiteSpace x) \<longrightarrow> limitContent (Some c) = []) \<and>
   (length (trim c) = 80 \<longrightarrow> limitContent (Some c) = trim c) \<and>
   (length (trim c) \<le> 80 \<longrightarrow> limitContent (Some c) = trim c) \<and>
   (length (trim c) > 80 \<longrightarrow> limitContent (Some c) = take 80 (trim c) @ str ''...'')"
proof (intro conjI impI)
  show "limitContent None = []" by (simp add: limitContent_def)
  show "limitContent (Some []) = []" by (simp add: limitContent_def)
  show "limitContent (Some c) = []" if "\<forall>x \<in> set c. isWhiteSpace x"
    using trim_all_white_space [OF that] by (simp add: limitContent_def)
  have short: "limitContent (Some c) = trim c" if "length (trim c) \<le> 80"
  proof (cases "c = []")
    case True
    then show ?thesis by (simp add: limitContent_def trim_def)
  next
    case False
    with that show ?thesis by (simp add: limitContent_def Let_def)
  qed
  then show "limitContent (Some c) = trim c" if "length (trim c) \<le> 80"
    using that .
  from short show "limitContent (Some c) = trim c" if "length (trim c) = 80"
    using that by simp
  show "limitContent (Some c) = take 80 (trim c) @ str ''...''" if "length (trim c) > 80"
  proof -
    from that have "c \<noteq> []" by (auto simp: trim_def)
    with that show ?thesis by (simp add: limitContent_def Let_def)
  qed
qed

theorem limitContent_cases_witness:
  "list_all isWhiteSpace [0x20, 0x09, 0x0A, 0x2028] \<and>
   limitContent (Some [0x20, 0x09, 0x0A, 0x2028]) = [] \<and>
   length (trim (0x20 # replicate 80 0x78 @ [0x0A])) = 80 \<and>
   length (trim (0x20 # replicate 80 0x78 @ [0x0A])) \<le> 80 \<and>
   limitContent (Some (0x20 # replicate 80 0x78 @ [0x0A])) = replicate 80 0x78 \<and>
   length (trim (replicate 81 0x78)) > 80 \<and>
   limitContent (Some (replicate 81 0x78)) = replicate 80 0x78 @ str ''...''"
proof -
  have x: "\<not> isWhiteSpace 0x78"
    by (simp add: isWhiteSpace_def white_space_def)
  have w: "\<forall>x \<in> set [0x20, 0x09, 0x0A, 0x2028]. isWhiteSpace x"
    by (simp add: isWhiteSpace_def white_space_def)
  have s: "isWhiteSpace 0x20" "isWhiteSpace 0x0A"
    by (simp_all add: isWhiteSpace_def white_space_def)
  have d: "dropWhile isWhiteSpace (replicate n 0x78 @ ys) = replicate n 0x78 @ ys"
    if "0 < n" for n ys
    using that x by (cases n) simp_all
  have t80: "trim (0x20 # replicate 80 0x78 @ [0x0A]) = replicate 80 0x78"
    using s x d [of 80 "[0x0A]"] d [of 80 "[]"] by (simp add: trim_def)
  have t81: "trim (replicate 81 0x78) = replicate 81 0x78"
    using x d [of 81 "[]"] by (simp add: trim_def)
  have k: "take 80 (replicate 81 (0x78::code_unit)) = replicate 80 0x78"
    by simp
  note u1 = limitContent_cases [of "[0x20, 0x09, 0x0A, 0x2028]"]
  note u2 = limitContent_cases [of "0x20 # replicate 80 0x78 @ [0x0A]"]
  note u3 = limitContent_cases [of "replicate 81 0x78"]
  from u1 w have 1: "limitContent (Some [0x20, 0x09, 0x0A, 0x2028]) = []" by blast
  have l80: "length (trim (0x20 # replicate 80 0x78 @ [0x0A])) = 80" by (simp add: t80)
  with u2 have "limitContent (Some (0x20 # replicate 80 0x78 @ [0x0A]))
      = trim (0x20 # replicate 80 0x78 @ [0x0A])" by blast
  then have 2: "limitContent (Some (0x20 # replicate 80 0x78 @ [0x0A])) = replicate 80 0x78"
    by (simp only: t80)
  have l81: "length (trim (replicate 81 0x78)) > 80" by (simp add: t81)
  with u3 have "limitContent (Some (replicate 81 0x78))
      = take 80 (trim (replicate 81 0x78)) @ str ''...''" by blast
  then have 3: "limitContent (Some (replicate 81 0x78)) = replicate 80 0x78 @ str ''...''"
    by (simp only: t81 k)
  from l80 have l80': "length (trim (0x20 # replicate 80 0x78 @ [0x0A])) \<le> 80" by simp
  from w have w': "list_all isWhiteSpace [0x20, 0x09, 0x0A, 0x2028]"
    by (simp only: list_all_iff)
  from w' 1 l80 l80' 2 l81 3 show ?thesis by - (intro conjI; assumption)
qed

section \<open>Loading a file\<close>

text \<open>
  Claim C7, as the code has it. When the parsed document contains a \<open>parsererror\<close>
  element, the document node of the state is cleared, the error is
  \<open>Not a valid XML\<close>, and the screen shows that message and no tree. The collapse map
  of the state is left as it was; a later load without \<open>parsererror\<close> replaces it by
  the default map of the new document, whatever it held.
\<close>

theorem failed_parse:
  "(getElementsByTagName xmlDoc (str ''parsererror'') \<noteq> [] \<longrightarrow>
      xmlElement (onload xmlDoc st) = None \<and>
      error (onload xmlDoc st) = Some (str ''Not a valid XML'') \<and>
      App (onload xmlDoc st) = (Some (str ''Not a valid XML''), None) \<and>
      collapsedMap (onload xmlDoc st) = collapsedMap st) \<and>
   (getElementsByTagName newDoc (str ''parsererror'') = [] \<longrightarrow>
      xmlElement (onload newDoc st) = Some newDoc \<and>
      collapsedMap (onload newDoc st) = generateDefaultCollapsedMap newDoc)"
  by (simp add: onload_def App_def Let_def str_def)

theorem failed_parse_witness:
  "getElementsByTagName malformed (str ''parsererror'') \<noteq> [] \<and>
   getElementsByTagName sample (str ''parsererror'') = [] \<and>
   xmlElement (onload malformed (onload sample initial)) = None \<and>
   App (onload malformed (onload sample initial)) = (Some (str ''Not a valid XML''), None) \<and>
   collapsedMap (onload malformed (onload sample initial)) = collapsedMap (onload sample initial) \<and>
   collapsedMap (onload sample (onload malformed (onload sample initial)))
     = generateDefaultCollapsedMap sample"
proof -
  have bad: "getElementsByTagName malformed (str ''parsererror'') \<noteq> []"
    by (simp add: malformed_def)
  have good: "getElementsByTagName sample (str ''parsererror'') = []"
    by (simp add: sample_defs str_def)
  note u = failed_parse [of malformed "onload sample initial" sample]
  note v = failed_parse [of malformed "onload malformed (onload sample initial)" sample]
  from u bad have 1: "xmlElement (onload malformed (onload sample initial)) = None" by blast
  from u bad have 2: "App (onload malformed (onload sample initial))
      = (Some (str ''Not a valid XML''), None)" by blast
  from u bad have 3: "collapsedMap (onload malformed (onload sample initial))
      = collapsedMap (onload sample initial)" by blast
  from v good have 4: "collapsedMap (onload sample (onload malformed (onload sample initial)))
     = generateDefaultCollapsedMap sample" by blast
  from bad good 1 2 3 4 show ?thesis by - (intro conjI; assumption)
qed

text \<open>
  The claim C7 as the specification words it fails after the sample document has been
  loaded: a failed parse leaves the sample's collapse map, with its entry for \<open>0.1\<close>,
  in the state.
\<close>

theorem failed_parse_counterexample:
  "getElementsByTagName malformed (str ''parsererror'') \<noteq> [] \<and>
   collapsedMap (onload malformed (onload sample initial)) (str ''0.1'') = Some True \<and>
   collapsedMap (onload malformed (onload sample initial)) \<noteq> Map.empty"
proof -
  have bad: "getElementsByTagName malformed (str ''parsererror'') \<noteq> []"
    by (simp add: malformed_def)
  have good: "getElementsByTagName sample (str ''parsererror'') = []"
    by (simp add: sample_defs str_def)
  have "collapsedMap (onload malformed (onload sample initial)) = generateDefaultCollapsedMap sample"
    using bad good by (simp add: onload_def Let_def)
  moreover have "generateDefaultCollapsedMap sample (str ''0.1'') = Some True"
    by (simp add: generateDefaultCollapsedMap_def sample_defs childPath_def str_def
        decimal.simps digit_def)
  ultimately have 1: "collapsedMap (onload malformed (onload sample initial)) (str ''0.1'') = Some True"
    by simp
  then have "collapsedMap (onload malformed (onload sample initial)) \<noteq> Map.empty"
    by (metis option.distinct(1))
  with bad 1 show ?thesis by simp
qed

section \<open>The screen\<close>

lemma XmlViewer_headers:
  "(q, c) \<in> set (headers (XmlViewer el d p m)) \<Longrightarrow>
     \<exists>d' e. (q, d', e) \<in> set (visits el p d) \<and> children e \<noteq> [] \<and> c = XmlTree_collapsed m q d'"
  "(q, c) \<in> set (headers_list (XmlTree_children cs i d p m)) \<Longrightarrow>
     \<exists>d' e. (q, d', e) \<in> set (visits_children cs i p d) \<and> children e \<noteq> [] \<and>
        c = XmlTree_collapsed m q d'"
proof (induction el d p m and cs i d p m rule: XmlViewer_XmlTree_children.induct)
  case (1 n t cs depth path m)
  show ?case
  proof (cases "cs = []")
    case True
    with "1.prems" show ?thesis by simp
  next
    case False
    show ?thesis
    proof (cases "(q, c) = (path, XmlTree_collapsed m path depth)")
      case True
      with False have "(q, depth, Element n t cs) \<in> set (visits (Element n t cs) path depth) \<and>
          children (Element n t cs) \<noteq> [] \<and> c = XmlTree_collapsed m q depth"
        by simp
      then show ?thesis by blast
    next
      case other: False
      with "1.prems" False have shown: "\<not> XmlTree_collapsed m path depth"
        and k: "(q, c) \<in> set (headers_list (XmlTree_children cs 0 depth path m))"
        by (auto split: if_splits)
      from False shown have "\<not> \<not> 0 < length cs" "\<not> XmlTree_collapsed m path depth" by simp_all
      from "1.IH" [OF this k] obtain d' e where
        "(q, d', e) \<in> set (visits_children cs 0 path depth)" "children e \<noteq> []"
        "c = XmlTree_collapsed m q d'"
        by blast
      then have "(q, d', e) \<in> set (visits (Element n t cs) path depth) \<and> children e \<noteq> [] \<and>
          c = XmlTree_collapsed m q d'"
        by simp
      then show ?thesis by blast
    qed
  qed
next
  case (2 index depth path m)
  then show ?case by simp
next
  case (3 child rest index depth path m)
  from "3.prems" consider
      (a) "(q, c) \<in> set (headers (XmlViewer child (depth + 1) (childPath path index) m))"
    | (b) "(q, c) \<in> set (headers_list (XmlTree_children rest (Suc index) depth path m))"
    by auto
  then show ?case
  proof cases
    case a
    from "3.IH"(1) [OF a] obtain d' e where
      "(q, d', e) \<in> set (visits child (childPath path index) (depth + 1))" "children e \<noteq> []"
      "c = XmlTree_collapsed m q d'"
      by blast
    then have "(q, d', e) \<in> set (visits_children (child # rest) index path depth) \<and>
        children e \<noteq> [] \<and> c = XmlTree_collapsed m q d'"
      by simp
    then show ?thesis by blast
  next
    case b
    from "3.IH"(2) [OF b] obtain d' e where
      "(q, d', e) \<in> set (visits_children rest (Suc index) path depth)" "children e \<noteq> []"
      "c = XmlTree_collapsed m q d'"
      by blast
    then have "(q, d', e) \<in> set (visits_children (child # rest) index path depth) \<and>
        children e \<noteq> [] \<and> c = XmlTree_collapsed m q d'"
      by simp
    then show ?thesis by blast
  qed
qed

lemma XmlView_headers:
  assumes "(q, c) \<in> set (headers (XmlView root m))"
  shows "\<exists>d e. (q, d, e) \<in> set (nodes root) \<and> children e \<noteq> [] \<and> c = XmlTree_collapsed m q d"
  using assms unfolding XmlView_def nodes_def by (rule XmlViewer_headers(1))

lemma handleFile_rejects:
  "handleFile None xmlDoc st = st"
  "ty \<noteq> str ''text/xml'' \<Longrightarrow> handleFile (Some ty) xmlDoc st = st"
  by (simp_all add: handleFile_def)

lemma sample_default_map:
  "generateDefaultCollapsedMap sample =
     [str ''0'' \<mapsto> False, str ''0.0'' \<mapsto> True, str ''0.1'' \<mapsto> True, str ''0.1.0'' \<mapsto> True]"
  by (simp add: generateDefaultCollapsedMap_def sample_defs childPath_def str_def
      decimal.simps digit_def)

lemma sample_first_screen:
  "App (onload sample initial) =
     (None, Some (TreeView (Some (str ''root'')) False (str ''0'')
        [LeafView (Some (str ''a'')) (str ''1''),
         TreeView (Some (str ''b'')) True (str ''0.1'') []]))"
  by (simp add: App_def onload_def initial_def Let_def XmlView_def XmlTree_collapsed_def
      generateDefaultCollapsedMap_def sample_defs childPath_def str_def decimal.simps digit_def
      stripNamespace_def colon_def limitContent_def trim_def isWhiteSpace_def white_space_def)

lemma sample_after_click:
  "App (click_toggle (str ''0.1'') 1 (onload sample initial)) =
     (None, Some (TreeView (Some (str ''root'')) False (str ''0'')
        [LeafView (Some (str ''a'')) (str ''1''),
         TreeView (Some (str ''b'')) False (str ''0.1'')
           [LeafView (Some (str ''c'')) (str ''2'')]]))"
  by (simp add: App_def onload_def initial_def Let_def XmlView_def XmlTree_collapsed_def
      click_toggle_def toggle_def
      generateDefaultCollapsedMap_def sample_defs childPath_def str_def decimal.simps digit_def
      stripNamespace_def colon_def limitContent_def trim_def isWhiteSpace_def white_space_def)

section \<open>Paths in the program\<close>

lemma XmlViewer_expanded:
  "\<forall>(q, d', e) \<in> set (visits el p d). \<not> XmlTree_collapsed m q d' \<Longrightarrow>
     headers (XmlViewer el d p m) =
       map (\<lambda>(q, d', e). (q, False)) (filter (\<lambda>(q, d', e). children e \<noteq> []) (visits el p d))"
  "\<forall>(q, d', e) \<in> set (visits_children cs i p d). \<not> XmlTree_collapsed m q d' \<Longrightarrow>
     headers_list (XmlTree_children cs i d p m) =
       map (\<lambda>(q, d', e). (q, False))
         (filter (\<lambda>(q, d', e). children e \<noteq> []) (visits_children cs i p d))"
proof (induction el d p m and cs i d p m rule: XmlViewer_XmlTree_children.induct)
  case (1 n t cs depth path m)
  show ?case
  proof (cases "cs = []")
    case True
    then show ?thesis by simp
  next
    case False
    from "1.prems" have shown: "\<not> XmlTree_collapsed m path depth" by simp
    from "1.prems" have rest: "\<forall>(q, d', e) \<in> set (visits_children cs 0 path depth).
        \<not> XmlTree_collapsed m q d'"
      by simp
    from False shown have "\<not> \<not> 0 < length cs" "\<not> XmlTree_collapsed m path depth" by simp_all
    from "1.IH" [OF this rest] False shown show ?thesis by simp
  qed
next
  case (2 index depth path m)
  show ?case by simp
next
  case (3 child rest index depth path m)
  from "3.prems" have a: "\<forall>(q, d', e) \<in> set (visits child (childPath path index) (depth + 1)).
      \<not> XmlTree_collapsed m q d'"
    and b: "\<forall>(q, d', e) \<in> set (visits_children rest (Suc index) path depth).
      \<not> XmlTree_collapsed m q d'"
    by simp_all
  from "3.IH"(1) [OF a] "3.IH"(2) [OF b] show ?case by simp
qed

lemma expandAll_value:
  assumes "(q, d, e) \<in> set (nodes root)"
  shows "expandAll root q = Some False"
  unfolding expandAll_writes using nodes_distinct assms by (rule writes_value)

lemma XmlView_expanded:
  "headers (XmlView root (expandAll root)) =
     map (\<lambda>(q, d, e). (q, False)) (filter (\<lambda>(q, d, e). children e \<noteq> []) (nodes root))"
proof -
  have "\<forall>(q, d, e) \<in> set (visits root (str ''0'') 0). \<not> XmlTree_collapsed (expandAll root) q d"
  proof clarify
    fix q d e
    assume "(q, d, e) \<in> set (visits root (str ''0'') 0)"
      and c: "XmlTree_collapsed (expandAll root) q d"
    then have "(q, d, e) \<in> set (nodes root)" by (simp only: nodes_def)
    then have "expandAll root q = Some False" by (rule expandAll_value)
    with c show False by (simp add: XmlTree_collapsed_def)
  qed
  then show ?thesis unfolding XmlView_def nodes_def by (rule XmlViewer_expanded(1))
qed

lemma default_map_card:
  "card (dom (generateDefaultCollapsedMap root)) = length (nodes root)"
proof -
  have "dom (generateDefaultCollapsedMap root) = set (map fst (nodes root))"
    by (simp add: generateDefaultCollapsedMap_writes writes_dom)
  then show ?thesis using distinct_card [OF nodes_distinct [of root]] by simp
qed

lemma XmlViewer_subseq:
  "subseq (map fst (headers (XmlViewer el d p m))) (map fst (visits el p d))"
  "subseq (map fst (headers_list (XmlTree_children cs i d p m)))
     (map fst (visits_children cs i p d))"
proof (induction el d p m and cs i d p m rule: XmlViewer_XmlTree_children.induct)
  case (1 n t cs depth path m)
  show ?case
  proof (cases "cs = [] \<or> XmlTree_collapsed m path depth")
    case True
    then show ?thesis by auto
  next
    case False
    then have "\<not> \<not> 0 < length cs" "\<not> XmlTree_collapsed m path depth" by simp_all
    from "1.IH" [OF this] False show ?thesis by simp
  qed
next
  case (2 index depth path m)
  show ?case by simp
next
  case (3 child rest index depth path m)
  from "3.IH" show ?case by (simp add: list_emb_append_mono)
qed

lemma XmlView_distinct: "distinct (map fst (headers (XmlView root m)))"
proof -
  have "subseq (map fst (headers (XmlView root m))) (map fst (nodes root))"
    unfolding XmlView_def nodes_def by (rule XmlViewer_subseq(1))
  then obtain N where "map fst (headers (XmlView root m)) = nths (map fst (nodes root)) N"
    unfolding subseq_conv_nths by blast
  then show ?thesis using nodes_distinct [of root] by (simp add: distinct_nthsI)
qed

lemma builders_card:
  "card (dom (generateDefaultCollapsedMap root)) = length (nodes root)"
  "card (dom (expandAll root)) = length (nodes root)"
  "card (dom (collapseAll root)) = length (nodes root)"
proof -
  have c: "card (set (map fst (nodes root))) = length (nodes root)"
    using distinct_card [OF nodes_distinct [of root]] by simp
  show "card (dom (generateDefaultCollapsedMap root)) = length (nodes root)"
    using c by (simp add: generateDefaultCollapsedMap_writes writes_dom)
  show "card (dom (expandAll root)) = length (nodes root)"
    using c by (simp add: expandAll_writes writes_dom)
  show "card (dom (collapseAll root)) = length (nodes root)"
    using c by (simp add: collapseAll_writes writes_dom)
qed

text \<open>
  Claim C1. The walk of each of the three map builders over a document tree is the
  replay of one list of calls, the depth-first enumeration \<open>nodes\<close> of the tree, and each
  builder's map has as many keys as that list has calls: no two nodes share a path.
  The enumeration starts from the root at path \<open>0\<close>; with every node it lists each
  child, at the node's path followed by \<open>.\<close> and the child's index, a proper extension
  of the node's path; and every listed node other than the root is such a child of a
  listed node. The headers that \<open>XmlView\<close> puts on the screen carry these same paths:
  under any map they are pairwise distinct paths of nodes with children, and with every
  node expanded they are the paths of all nodes with children, in the order of the
  enumeration.
\<close>

theorem path_uniqueness:
  "generateDefaultCollapsedMap root = writes (\<lambda>d. 0 < d) (nodes root) Map.empty \<and>
   expandAll root = writes (\<lambda>d. False) (nodes root) Map.empty \<and>
   collapseAll root = writes (\<lambda>d. True) (nodes root) Map.empty \<and>
   card (dom (generateDefaultCollapsedMap root)) = length (nodes root) \<and>
   card (dom (expandAll root)) = length (nodes root) \<and>
   card (dom (collapseAll root)) = length (nodes root) \<and>
   distinct (map fst (headers (XmlView root m))) \<and>
   (\<forall>(q, c) \<in> set (headers (XmlView root m)).
      \<exists>d e. (q, d, e) \<in> set (nodes root) \<and> children e \<noteq> [] \<and> c = XmlTree_collapsed m q d) \<and>
   headers (XmlView root (expandAll root)) =
     map (\<lambda>(q, d, e). (q, False)) (filter (\<lambda>(q, d, e). children e \<noteq> []) (nodes root)) \<and>
   distinct (map fst (nodes root)) \<and>
   (str ''0'', 0, root) \<in> set (nodes root) \<and>
   (\<forall>(q, d, e) \<in> set (nodes root). \<forall>i < length (children e).
      (childPath q i, d + 1, children e ! i) \<in> set (nodes root) \<and>
      strict_prefix q (childPath q i)) \<and>
   (\<forall>(q, d, e) \<in> set (nodes root).
      (q, d, e) = (str ''0'', 0, root) \<or>
      (\<exists>(q0, d0, e0) \<in> set (nodes root). \<exists>i < length (children e0).
         q = childPath q0 i \<and> d = d0 + 1 \<and> e = children e0 ! i))"
proof -
  have h: "\<forall>(q, c) \<in> set (headers (XmlView root m)).
      \<exists>d e. (q, d, e) \<in> set (nodes root) \<and> children e \<noteq> [] \<and> c = XmlTree_collapsed m q d"
    using XmlView_headers [of _ _ root m] by blast
  note s = nodes_structure [of root]
  from s have 1: "distinct (map fst (nodes root))" by (elim conjE)
  from s have 2: "(str ''0'', 0, root) \<in> set (nodes root)" by (elim conjE)
  from s have 3: "\<forall>(q, d, e) \<in> set (nodes root). \<forall>i < length (children e).
      (childPath q i, d + 1, children e ! i) \<in> set (nodes root) \<and>
      strict_prefix q (childPath q i)" by (elim conjE)
  from s have 4: "\<forall>(q, d, e) \<in> set (nodes root).
      (q, d, e) = (str ''0'', 0, root) \<or>
      (\<exists>(q0, d0, e0) \<in> set (nodes root). \<exists>i < length (children e0).
         q = childPath q0 i \<and> d = d0 + 1 \<and> e = children e0 ! i)" by (elim conjE)
  from generateDefaultCollapsedMap_writes [of root] expandAll_writes [of root]
    collapseAll_writes [of root] builders_card [of root] XmlView_distinct [of root m] h
    XmlView_expanded [of root] 1 2 3 4
  show ?thesis by - (intro conjI; assumption)
qed

theorem path_uniqueness_witness:
  "(str ''0.1'', 1, elem_b) \<in> set (nodes sample) \<and> 0 < length (children elem_b) \<and>
   (childPath (str ''0.1'') 0, 1 + 1, children elem_b ! 0) \<in> set (nodes sample) \<and>
   strict_prefix (str ''0.1'') (childPath (str ''0.1'') 0) \<and>
   distinct (map fst (nodes sample)) \<and>
   ((str ''0.1'', 1::int, elem_b) = (str ''0'', 0, sample) \<or>
    (\<exists>(q0, d0, e0) \<in> set (nodes sample). \<exists>i < length (children e0).
       str ''0.1'' = childPath q0 i \<and> 1 = d0 + 1 \<and> elem_b = children e0 ! i)) \<and>
   card (dom (generateDefaultCollapsedMap sample)) = 4 \<and>
   (str ''0.1'', True) \<in> set (headers (XmlView sample (generateDefaultCollapsedMap sample))) \<and>
   (\<exists>d e. (str ''0.1'', d, e) \<in> set (nodes sample) \<and> children e \<noteq> [] \<and>
      True = XmlTree_collapsed (generateDefaultCollapsedMap sample) (str ''0.1'') d) \<and>
   headers (XmlView sample (expandAll sample)) = [(str ''0'', False), (str ''0.1'', False)]"
proof -
  have mem: "(str ''0.1'', 1, elem_b) \<in> set (nodes sample)"
    by (simp add: nodes_sample)
  have len: "0 < length (children elem_b)"
    by (simp add: elem_b_def)
  have hd: "(str ''0.1'', True)
      \<in> set (headers (XmlView sample (generateDefaultCollapsedMap sample)))"
    by (simp add: XmlView_def XmlTree_collapsed_def generateDefaultCollapsedMap_def
        sample_defs childPath_def str_def decimal.simps digit_def)
  note u = path_uniqueness [of sample "generateDefaultCollapsedMap sample"]
  from u have c: "\<forall>(q, d, e) \<in> set (nodes sample). \<forall>i < length (children e).
      (childPath q i, d + 1, children e ! i) \<in> set (nodes sample) \<and>
      strict_prefix q (childPath q i)"
    by (elim conjE)
  from bspec [OF c mem] len
  have 1: "(childPath (str ''0.1'') 0, 1 + 1, children elem_b ! 0) \<in> set (nodes sample) \<and>
      strict_prefix (str ''0.1'') (childPath (str ''0.1'') 0)"
    by simp
  from u have 2: "distinct (map fst (nodes sample))" by (elim conjE)
  from u have p: "\<forall>(q, d, e) \<in> set (nodes sample).
      (q, d, e) = (str ''0'', 0, sample) \<or>
      (\<exists>(q0, d0, e0) \<in> set (nodes sample). \<exists>i < length (children e0).
         q = childPath q0 i \<and> d = d0 + 1 \<and> e = children e0 ! i)"
    by (elim conjE)
  from bspec [OF p mem]
  have 3: "(str ''0.1'', 1::int, elem_b) = (str ''0'', 0, sample) \<or>
    (\<exists>(q0, d0, e0) \<in> set (nodes sample). \<exists>i < length (children e0).
       str ''0.1'' = childPath q0 i \<and> 1 = d0 + 1 \<and> elem_b = children e0 ! i)"
    by (simp only: prod.case)
  from u have "card (dom (generateDefaultCollapsedMap sample)) = length (nodes sample)"
    by (elim conjE)
  then have 4: "card (dom (generateDefaultCollapsedMap sample)) = 4"
    by (simp add: nodes_sample)
  from u have "\<forall>(q, c) \<in> set (headers (XmlView sample (generateDefaultCollapsedMap sample))).
      \<exists>d e. (q, d, e) \<in> set (nodes sample) \<and> children e \<noteq> [] \<and>
        c = XmlTree_collapsed (generateDefaultCollapsedMap sample) q d"
    by (elim conjE)
  from bspec [OF this hd]
  have 5: "\<exists>d e. (str ''0.1'', d, e) \<in> set (nodes sample) \<and> children e \<noteq> [] \<and>
      True = XmlTree_collapsed (generateDefaultCollapsedMap sample) (str ''0.1'') d"
    by (simp only: prod.case)
  from u have "headers (XmlView sample (expandAll sample)) =
     map (\<lambda>(q, d, e). (q, False)) (filter (\<lambda>(q, d, e). children e \<noteq> []) (nodes sample))"
    by (elim conjE)
  moreover have "map (\<lambda>(q, d, e). (q, False))
      (filter (\<lambda>(q, d, e). children e \<noteq> []) (nodes sample))
      = [(str ''0'', False), (str ''0.1'', False)]"
    unfolding nodes_sample by (simp add: sample_defs)
  ultimately have 6: "headers (XmlView sample (expandAll sample))
      = [(str ''0'', False), (str ''0.1'', False)]"
    by (rule trans)
  from mem len 1 2 3 4 hd 5 6 show ?thesis by - (intro conjI; (elim conjE)?; assumption)
qed

end
